theory Spec2Isabelle
  imports Complex_Main "HOL-Library.Multiset" "HOL-Library.Sublist"
begin

section \<open>The retrieval engine of Profesor (rag.js)\<close>

text \<open>
  The module keeps one in-memory store of document chunks, splits a document into
  chunks, asks an embedding provider for a vector per chunk and ranks chunks against a
  query by cosine similarity.

  Conventions of the embedding.
  \<^item> A JavaScript number is a \<^typ>\<open>real\<close>: arithmetic is exact, and there is no NaN and
    no infinity. A count or an index is a \<^typ>\<open>nat\<close>; the \<open>topK\<close> handed to
    \<open>Array.prototype.slice\<close> is an \<^typ>\<open>int\<close>, because \<open>slice\<close> reads a negative end
    from the back of the array.
  \<^item> A JavaScript string is a \<^typ>\<open>string\<close>; a \<^typ>\<open>char\<close> stands for a UTF-16 code
    unit below 256.
  \<^item> \<open>null\<close> and \<open>undefined\<close> are \<open>None\<close>.
  \<^item> A method that mutates the store takes the store and returns the new one.
  \<^item> The settled state of a promise is a sum: \<open>Inl\<close> a rejection, \<open>Inr\<close> the value.
\<close>

subsection \<open>Chunks and the store\<close>

record chunk_meta =
  md_index :: nat
  md_title :: string
  md_hasEmbedding :: bool

record chunk =
  chunk_id :: nat
  chunk_text :: string
  embedding :: "real list option"
  metadata :: chunk_meta

text \<open>The object \<open>{...chunk, score}\<close> of \<open>findSimilar\<close>; the chunks of the positional
  path are returned as they are stored, with no \<open>score\<close> property.\<close>

record scored_chunk = chunk +
  score :: "real option"

record rag_store =
  chunks :: "chunk list"
  documentTitle :: string

definition new_store :: rag_store where
  "new_store = \<lparr>chunks = [], documentTitle = []\<rparr>"



definition size_store :: "rag_store \<Rightarrow> nat" where
  "size_store s = length (chunks s)"

subsection \<open>Cosine similarity\<close>

text \<open>The loop of \<open>cosineSimilarity\<close> reads \<open>a[i]\<close> and \<open>b[i]\<close> for \<open>i < a.length\<close>; it
  runs only when both lengths agree, so it is a left fold over the paired entries.\<close>

definition cosine_step :: "real \<times> real \<times> real \<Rightarrow> real \<times> real \<Rightarrow> real \<times> real \<times> real" where
  "cosine_step acc p =
     (case acc of (dotProduct, normA, normB) \<Rightarrow>
        (dotProduct + fst p * snd p, normA + fst p * fst p, normB + snd p * snd p))"

definition cosineSimilarity :: "real list option \<Rightarrow> real list option \<Rightarrow> real" where
  "cosineSimilarity a b =
     (case a of
        None \<Rightarrow> 0
      | Some av \<Rightarrow>
         (case b of
            None \<Rightarrow> 0
          | Some bv \<Rightarrow>
              if length av \<noteq> length bv then 0
              else
                (case foldl cosine_step (0, 0, 0) (zip av bv) of
                   (dotProduct, normA, normB) \<Rightarrow>
                     if normA = 0 \<or> normB = 0 then 0
                     else dotProduct / (sqrt normA * sqrt normB))))"

subsection \<open>Array helpers\<close>

text \<open>\<open>xs.slice(0, e)\<close>: a negative \<open>e\<close> counts from the end of the array.\<close>

definition slice0 :: "int \<Rightarrow> 'a list \<Rightarrow> 'a list" where
  "slice0 e xs =
     (if e < 0 then take (nat (int (length xs) + e)) xs else take (nat e) xs)"

text \<open>\<open>xs.sort(cmp)\<close> is a stable sort: an element is placed after every earlier element
  that the comparator does not put behind it. For a comparator that is a difference of
  keys the result is the one a stable insertion gives.\<close>

fun insort_cmp :: "('a \<Rightarrow> 'a \<Rightarrow> real) \<Rightarrow> 'a \<Rightarrow> 'a list \<Rightarrow> 'a list" where
  "insort_cmp cmp x [] = [x]"
| "insort_cmp cmp x (y # ys) =
     (if cmp x y \<le> 0 then x # y # ys else y # insort_cmp cmp x ys)"

definition js_sort :: "('a \<Rightarrow> 'a \<Rightarrow> real) \<Rightarrow> 'a list \<Rightarrow> 'a list" where
  "js_sort cmp xs = foldr (insort_cmp cmp) xs []"

subsection \<open>findSimilar\<close>

definition with_score :: "chunk \<Rightarrow> real option \<Rightarrow> scored_chunk" where
  "with_score c s =
     \<lparr>chunk_id = chunk_id c, chunk_text = chunk_text c, embedding = embedding c,
      metadata = metadata c, score = s\<rparr>"

definition chunk_of :: "scored_chunk \<Rightarrow> chunk" where
  "chunk_of r =
     \<lparr>chunk_id = chunk_id r, chunk_text = chunk_text r, embedding = embedding r,
      metadata = metadata r\<rparr>"

text \<open>The \<open>score\<close> a comparator reads; every element of the ranked path has one.\<close>

definition score_of :: "scored_chunk \<Rightarrow> real" where
  "score_of r = (case score r of Some x \<Rightarrow> x | None \<Rightarrow> 0)"

text \<open>\<open>chunk.embedding?.length > 0\<close>\<close>

definition has_entries :: "real list option \<Rightarrow> bool" where
  "has_entries e = (case e of None \<Rightarrow> False | Some v \<Rightarrow> length v > 0)"

definition chunk_score :: "real list option \<Rightarrow> chunk \<Rightarrow> real" where
  "chunk_score queryEmbedding c =
     (if has_entries (embedding c) then cosineSimilarity queryEmbedding (embedding c) else 0)"

definition findSimilar :: "rag_store \<Rightarrow> real list option \<Rightarrow> int \<Rightarrow> scored_chunk list" where
  "findSimilar s queryEmbedding topK =
     (if length (chunks s) = 0 then []
      else if \<not> has_entries queryEmbedding
        then map (\<lambda>c. with_score c None) (slice0 topK (chunks s))
      else
        (let scored = map (\<lambda>c. with_score c (Some (chunk_score queryEmbedding c))) (chunks s)
         in slice0 topK (js_sort (\<lambda>a b. score_of b - score_of a) scored)))"

subsection \<open>String helpers\<close>

text \<open>The code units below 256 that \<open>String.prototype.trim\<close> removes and the regular
  expression class \<open>\s\<close> matches: tab, line feed, vertical tab, form feed, carriage
  return, space and the no-break space.\<close>

definition is_space :: "char \<Rightarrow> bool" where
  "is_space c = (c \<in> {CHR 0x09, CHR 0x0A, CHR 0x0B, CHR 0x0C, CHR 0x0D, CHR 0x20, CHR 0xA0})"

definition trim :: "string \<Rightarrow> string" where
  "trim s = rev (dropWhile is_space (rev (dropWhile is_space s)))"

text \<open>\<open>parts.join(sep)\<close>\<close>

fun join :: "string \<Rightarrow> string list \<Rightarrow> string" where
  "join sep [] = []"
| "join sep [x] = x"
| "join sep (x # y # ys) = x @ sep @ join sep (y # ys)"

text \<open>Prepends a code unit to the piece a split is building.\<close>

fun push_front :: "char \<Rightarrow> string list \<Rightarrow> string list" where
  "push_front c [] = [[c]]"
| "push_front c (w # ws) = (c # w) # ws"

text \<open>\<open>s.split(d)\<close> for a separator of one code unit; the empty string gives \<open>[""]\<close>.\<close>

fun split_char :: "char \<Rightarrow> string \<Rightarrow> string list" where
  "split_char d [] = [[]]"
| "split_char d (c # cs) =
     (if c = d then [] # split_char d cs else push_front c (split_char d cs))"

text \<open>\<open>xs.slice(-n)\<close>: the last \<open>n\<close> elements, all of them when there are fewer.\<close>

definition slice_last :: "nat \<Rightarrow> 'a list \<Rightarrow> 'a list" where
  "slice_last n xs = drop (length xs - n) xs"

definition newline :: char where
  "newline = CHR 0x0A"

text \<open>\<open>text.split(/\n\n+/)\<close>: a separator is a maximal run of two or more line feeds; a
  single line feed stays in its piece.\<close>

function split_paragraphs :: "string \<Rightarrow> string list" where
  "split_paragraphs [] = [[]]"
| "split_paragraphs (c # cs) =
     (if c = newline \<and> take 1 cs = [newline]
      then [] # split_paragraphs (dropWhile (\<lambda>x. x = newline) cs)
      else push_front c (split_paragraphs cs))"
  by pat_completeness auto
termination
  by (relation "measure length") (auto simp: length_dropWhile_le less_Suc_eq_le)

definition is_sentence_end :: "char option \<Rightarrow> bool" where
  "is_sentence_end p = (p \<in> {Some CHR ''.'', Some CHR ''!'', Some CHR ''?''})"

text \<open>\<open>text.split(/(?<=[.!?])\s+/)\<close>: a separator is a maximal run of white space that
  stands right after a full stop, an exclamation mark or a question mark. The first
  argument is the code unit before the current position (none at the start).\<close>

function split_after :: "char option \<Rightarrow> string \<Rightarrow> string list" where
  "split_after prev [] = [[]]"
| "split_after prev (c # cs) =
     (if is_space c \<and> is_sentence_end prev
      then [] # split_after (Some (last (c # takeWhile is_space cs))) (dropWhile is_space cs)
      else push_front c (split_after (Some c) cs))"
  by pat_completeness auto
termination
  by (relation "measure (\<lambda>(p, s). length s)") (auto simp: length_dropWhile_le less_Suc_eq_le)

definition split_sentences :: "string \<Rightarrow> string list" where
  "split_sentences s = split_after None s"

subsection \<open>The chunker\<close>

record text_chunk =
  tc_text :: string
  tc_index :: nat

text \<open>The state of both loops: the array \<open>chunks\<close> pushed so far (\<open>out\<close>), \<open>currentChunk\<close> and
  \<open>chunkIndex\<close>.\<close>

type_synonym chunker_state = "text_chunk list \<times> string \<times> nat"

definition paragraph_step :: "nat \<Rightarrow> chunker_state \<Rightarrow> string \<Rightarrow> chunker_state" where
  "paragraph_step chunkSize st para =
     (case st of (out, currentChunk, chunkIndex) \<Rightarrow>
        if length currentChunk + length para > chunkSize \<and> length currentChunk > 0
        then (out @ [\<lparr>tc_text = trim currentChunk, tc_index = chunkIndex\<rparr>],
              join '' '' (slice_last 20 (split_char CHR '' '' currentChunk)) @ '' '' @ para,
              chunkIndex + 1)
        else (out,
              currentChunk @ (if currentChunk \<noteq> [] then [newline, newline] else []) @ para,
              chunkIndex))"

definition sentence_step :: "nat \<Rightarrow> chunker_state \<Rightarrow> string \<Rightarrow> chunker_state" where
  "sentence_step chunkSize st sentence =
     (case st of (out, currentChunk, chunkIndex) \<Rightarrow>
        if length currentChunk + length sentence > chunkSize \<and> length currentChunk > 0
        then (out @ [\<lparr>tc_text = trim currentChunk, tc_index = chunkIndex\<rparr>],
              sentence,
              chunkIndex + 1)
        else (out,
              currentChunk @ (if currentChunk \<noteq> [] then '' '' else []) @ sentence,
              chunkIndex))"

text \<open>The flush after a loop: \<open>if (currentChunk.trim()) chunks.push(...)\<close>.\<close>

definition final_flush :: "chunker_state \<Rightarrow> text_chunk list" where
  "final_flush st =
     (case st of (out, currentChunk, chunkIndex) \<Rightarrow>
        if trim currentChunk \<noteq> []
        then out @ [\<lparr>tc_text = trim currentChunk, tc_index = chunkIndex\<rparr>]
        else out)"

definition splitBySentences :: "string \<Rightarrow> nat \<Rightarrow> text_chunk list" where
  "splitBySentences txt chunkSize =
     final_flush (foldl (sentence_step chunkSize) ([], [], 0) (split_sentences txt))"

text \<open>The paragraph loop of \<open>chunkText\<close> with its final flush, before the test for too
  few chunks.\<close>

definition paragraph_chunks :: "string \<Rightarrow> nat \<Rightarrow> text_chunk list" where
  "paragraph_chunks txt chunkSize =
     final_flush (foldl (paragraph_step chunkSize) ([], [], 0) (split_paragraphs txt))"

text \<open>\<open>chunkText(text, chunkSize = 1500, overlap = 200)\<close>; the body never reads
  \<open>overlap\<close>.\<close>

definition chunkText :: "string \<Rightarrow> nat \<Rightarrow> nat \<Rightarrow> text_chunk list" where
  "chunkText txt chunkSize overlap =
     (let out = paragraph_chunks txt chunkSize
      in if length out < 3 \<and> length txt > 1000
         then splitBySentences txt chunkSize
         else out)"

subsection \<open>The embedding client\<close>

datatype exn = NetworkError | SyntaxError | TypeError

text \<open>What \<open>response.json()\<close> resolves to, as far as \<open>data.embedding?.values\<close> reads it:
  \<open>null\<close>; a value with no \<open>embedding\<close>; an \<open>embedding\<close> with no truthy \<open>values\<close>; an
  \<open>embedding\<close> with an array of \<open>values\<close>.\<close>

datatype json = JNull | JNoEmbedding | JNoValues | JValues "real list"

text \<open>A response: \<open>json()\<close> rejects with a \<open>SyntaxError\<close> on a malformed body.\<close>

record response =
  status :: nat
  body :: "exn + json"

definition ok :: "response \<Rightarrow> bool" where
  "ok r = (200 \<le> status r \<and> status r \<le> 299)"

text \<open>The provider: what the \<open>n\<close>-th call of \<open>fetch\<close> (counted from 0) settles to for the
  text it is asked to embed; \<open>Inl\<close> is a rejected \<open>fetch\<close>.\<close>

type_synonym provider = "nat \<Rightarrow> string \<Rightarrow> exn + response"

text \<open>The effects outside the store: the number of \<open>fetch\<close> calls made, and the delays
  handed to \<open>setTimeout\<close>, in milliseconds, in the order of the calls.\<close>

record world =
  fetches :: nat
  timers :: "nat list"

definition set_timeout :: "nat \<Rightarrow> world \<Rightarrow> world" where
  "set_timeout ms w = w\<lparr>timers := timers w @ [ms]\<rparr>"

text \<open>\<open>data.embedding?.values || null\<close>; reading \<open>embedding\<close> of \<open>null\<close> throws.\<close>

definition embedding_values :: "json \<Rightarrow> exn + real list option" where
  "embedding_values d =
     (case d of
        JNull \<Rightarrow> Inl TypeError
      | JNoEmbedding \<Rightarrow> Inr None
      | JNoValues \<Rightarrow> Inr None
      | JValues v \<Rightarrow> Inr (Some v))"

datatype attempt_result = Continue | Return "real list option"

text \<open>The body of the \<open>try\<close> block of one attempt; \<open>Inl\<close> is what it throws.\<close>

definition try_body ::
  "provider \<Rightarrow> string \<Rightarrow> nat \<Rightarrow> nat \<Rightarrow> world \<Rightarrow> (exn + attempt_result) \<times> world" where
  "try_body fetch txt retries attempt w =
     (let w1 = w\<lparr>fetches := fetches w + 1\<rparr> in
      case fetch (fetches w) txt of
        Inl e \<Rightarrow> (Inl e, w1)
      | Inr resp \<Rightarrow>
          if status resp = 429 then
            (if attempt < retries
             then (Inr Continue, set_timeout (2000 * (attempt + 1)) w1)
             else (Inr (Return None), w1))
          else if \<not> ok resp then (Inr (Return None), w1)
          else
            (case body resp of
               Inl e \<Rightarrow> (Inl e, w1)
             | Inr d \<Rightarrow>
                 (case embedding_values d of
                    Inl e \<Rightarrow> (Inl e, w1)
                  | Inr v \<Rightarrow> (Inr (Return v), w1))))"

text \<open>The \<open>for\<close> loop over \<open>attempt\<close>, with the \<open>catch\<close> that returns \<open>null\<close>. The result
  is the settled promise of the async function.\<close>

function embedding_loop ::
  "provider \<Rightarrow> string \<Rightarrow> nat \<Rightarrow> nat \<Rightarrow> world \<Rightarrow> (exn + real list option) \<times> world" where
  "embedding_loop fetch txt retries attempt w =
     (if attempt \<le> retries then
        (case try_body fetch txt retries attempt w of
           (Inl e, w') \<Rightarrow> (Inr None, w')
         | (Inr Continue, w') \<Rightarrow> embedding_loop fetch txt retries (attempt + 1) w'
         | (Inr (Return v), w') \<Rightarrow> (Inr v, w'))
      else (Inr None, w))"
  by pat_completeness auto
termination
  by (relation "measure (\<lambda>(fetch, txt, retries, attempt, w). Suc retries - attempt)") auto

definition generateEmbeddingWithRetry ::
  "provider \<Rightarrow> string \<Rightarrow> nat \<Rightarrow> world \<Rightarrow> (exn + real list option) \<times> world" where
  "generateEmbeddingWithRetry fetch txt retries w = embedding_loop fetch txt retries 0 w"

subsection \<open>processDocument\<close>





subsection \<open>Retrieval\<close>



definition getAllText :: "rag_store \<Rightarrow> string" where
  "getAllText s = join [newline, newline] (map chunk_text (chunks s))"

definition getDocumentSummary :: "int \<Rightarrow> rag_store \<Rightarrow> string" where
  "getDocumentSummary maxChunks s =
     (if size_store s = 0 then []
      else join [newline, newline] (map chunk_text (slice0 maxChunks (chunks s))))"

definition isDocumentLoaded :: "rag_store \<Rightarrow> bool" where
  "isDocumentLoaded s = (size_store s > 0)"

definition getDocumentTitle :: "rag_store \<Rightarrow> string" where
  "getDocumentTitle s = documentTitle s"

subsection \<open>Sample inputs\<close>

definition sample_chunk :: "nat \<Rightarrow> string \<Rightarrow> real list \<Rightarrow> chunk" where
  "sample_chunk i t e =
     \<lparr>chunk_id = i, chunk_text = t, embedding = Some e,
      metadata = \<lparr>md_index = i, md_title = ''T'', md_hasEmbedding = (e \<noteq> [])\<rparr>\<rparr>"

definition sample_store :: rag_store where
  "sample_store =
     \<lparr>chunks = [sample_chunk 0 ''a'' [], sample_chunk 1 ''b'' [-1], sample_chunk 2 ''c'' [1]],
      documentTitle = ''T''\<rparr>"

subsection \<open>Predicates and sample providers\<close>



text \<open>A failed call that is not a rate limit: \<open>fetch\<close> rejects, the status is not ok, the
  body is malformed, or the parsed body holds no \<open>embedding.values\<close>.\<close>

definition failed_call :: "exn + response \<Rightarrow> bool" where
  "failed_call x =
     (case x of
        Inl e \<Rightarrow> True
      | Inr r \<Rightarrow>
          status r \<noteq> 429 \<and>
          (\<not> ok r \<or>
           (case body r of
              Inl e \<Rightarrow> True
            | Inr d \<Rightarrow> (case d of JValues v \<Rightarrow> False | _ \<Rightarrow> True))))"

text \<open>The rate-limit signal: a response of status 429.\<close>

definition rate_limited :: "exn + response \<Rightarrow> bool" where
  "rate_limited x = (case x of Inl e \<Rightarrow> False | Inr r \<Rightarrow> status r = 429)"

text \<open>A successful response that carries the vector \<open>v\<close>.\<close>

definition embedded :: "real list \<Rightarrow> exn + response" where
  "embedded v = Inr \<lparr>status = 200, body = Inr (JValues v)\<rparr>"

text \<open>Sample providers and the initial world.\<close>

definition always_429 :: provider where
  "always_429 n t = Inr \<lparr>status = 429, body = Inl SyntaxError\<rparr>"

text \<open>Rate limited once, then an embedding.\<close>

definition flaky :: provider where
  "flaky n t = (if n = 0 then Inr \<lparr>status = 429, body = Inl SyntaxError\<rparr> else embedded [3, 4])"

text \<open>Every \<open>fetch\<close> rejects.\<close>

definition offline :: provider where
  "offline n t = Inl NetworkError"

definition world0 :: world where
  "world0 = \<lparr>fetches = 0, timers = []\<rparr>"


subsection \<open>Predicates and sample documents of the chunker\<close>

text \<open>The content of a string: its code units that are not white space, in order.\<close>

definition strip_ws :: "string \<Rightarrow> string" where
  "strip_ws s = filter (\<lambda>c. \<not> is_space c) s"

text \<open>\<open>covers prev d ts\<close>: the chunk texts \<open>ts\<close> reproduce the content \<open>d\<close> up to
  white space and overlap. The content of each chunk is a seed followed by fresh
  content; the seed repeats an end piece of the chunk before it (of \<open>prev\<close> for the
  first chunk), and the fresh pieces, in order, make up \<open>d\<close>.\<close>

inductive covers :: "string \<Rightarrow> string \<Rightarrow> string list \<Rightarrow> bool" where
  covers_Nil: "covers prev [] []"
| covers_Cons:
    "strip_ws t = seed @ fresh \<Longrightarrow> suffix seed prev \<Longrightarrow> covers (strip_ws t) rest ts \<Longrightarrow>
     covers prev (fresh @ rest) (t # ts)"

text \<open>A document with no blank line: no two line feeds in a row.\<close>

fun no_blank_line :: "string \<Rightarrow> bool" where
  "no_blank_line (c # d # cs) = (\<not> (c = newline \<and> d = newline) \<and> no_blank_line (d # cs))"
| "no_blank_line cs = True"

text \<open>The invariant of both chunking loops: \<open>d\<close> is the content of the pieces read so
  far.\<close>

definition last_stripped :: "string list \<Rightarrow> string" where
  "last_stripped ts = (if ts = [] then [] else strip_ws (last ts))"

definition chunker_inv :: "string \<Rightarrow> chunker_state \<Rightarrow> bool" where
  "chunker_inv d st =
     (case st of (out, currentChunk, chunkIndex) \<Rightarrow>
        \<exists>seed fresh before.
          strip_ws currentChunk = seed @ fresh \<and>
          suffix seed (last_stripped (map tc_text out)) \<and>
          covers [] before (map tc_text out) \<and>
          d = before @ fresh)"

text \<open>Sample documents: a blank first paragraph before two long ones; 2000 code units
  of prose with no line feed; three short paragraphs.\<close>

definition blank_lead_doc :: string where
  "blank_lead_doc =
     '' '' @ [newline, newline] @ replicate 1500 CHR ''X'' @ [newline, newline] @
     replicate 1500 CHR ''Y''"


definition overlap_doc :: string where
  "overlap_doc = ''a b'' @ [newline, newline] @ ''cd'' @ [newline, newline] @ ''ef''"

text \<open>A trimmed string: empty, or with no white space at either end.\<close>

definition trimmed :: "string \<Rightarrow> bool" where
  "trimmed t = (t = [] \<or> \<not> is_space (hd t) \<and> \<not> is_space (last t))"

section \<open>Properties\<close>

subsection \<open>Sorting and slicing\<close>






lemma slice0_nat: "slice0 (int k) xs = take k xs"
  by (simp add: slice0_def)


lemma score_with_score: "score (with_score c x) = x"
  by (simp add: with_score_def)


lemma chunk_of_with_score: "chunk_of (with_score c s) = c"
  by (simp add: chunk_of_def with_score_def)

subsection \<open>Cosine similarity: the guard\<close>

text \<open>
  C10. \<open>cosineSimilarity\<close> returns exactly 0 when either argument is \<open>null\<close> or
  \<open>undefined\<close> and when the two vectors differ in length: the guard answers before any
  entry is read and before any division.
\<close>

theorem cosineSimilarity_guard:
  "cosineSimilarity None b = 0 \<and> cosineSimilarity a None = 0 \<and>
   (length av \<noteq> length bv \<longrightarrow> cosineSimilarity (Some av) (Some bv) = 0)"
  by (simp add: cosineSimilarity_def split: option.splits)

theorem cosineSimilarity_guard_witness:
  "cosineSimilarity None (Some [1, 2]) = 0 \<and> cosineSimilarity (Some [1, 2]) None = 0 \<and>
   length [1, 2 :: real] \<noteq> length [3 :: real] \<and> cosineSimilarity (Some [1, 2]) (Some [3]) = 0"
  using cosineSimilarity_guard [of "Some [1, 2]" "Some [1, 2]" "[1, 2]" "[3]"] by simp

subsection \<open>findSimilar: the positional path\<close>

lemma findSimilar_absent:
  "\<not> has_entries q \<Longrightarrow> findSimilar s q (int k) = map (\<lambda>c. with_score c None) (take k (chunks s))"
  by (simp add: findSimilar_def slice0_nat)

text \<open>
  C2. When the query embedding is absent or empty, \<open>findSimilar\<close> returns the first \<open>k\<close>
  chunks of the store in insertion order, unranked: exactly \<open>min k chunkCount\<close> of them.
  An empty store gives the empty result for every query and every \<open>topK\<close>.
\<close>

theorem findSimilar_positional:
  "(chunks s = [] \<longrightarrow> findSimilar s q topK = []) \<and>
   (q = None \<or> q = Some [] \<longrightarrow>
      map chunk_of (findSimilar s q (int k)) = take k (chunks s) \<and>
      length (findSimilar s q (int k)) = min k (length (chunks s)) \<and>
      list_all (\<lambda>r. score r = None) (findSimilar s q (int k)))"
proof (intro conjI impI)
  show "findSimilar s q topK = []" if "chunks s = []"
    using that by (simp add: findSimilar_def)
next
  assume "q = None \<or> q = Some []"
  then have absent: "\<not> has_entries q"
    by (auto simp: has_entries_def)
  show "map chunk_of (findSimilar s q (int k)) = take k (chunks s)"
    by (simp add: findSimilar_absent [OF absent] comp_def chunk_of_with_score)
  show "length (findSimilar s q (int k)) = min k (length (chunks s))"
    by (simp add: findSimilar_absent [OF absent] min.commute)
  show "list_all (\<lambda>r. score r = None) (findSimilar s q (int k))"
    by (simp add: findSimilar_absent [OF absent] list_all_iff score_with_score)
qed

theorem findSimilar_positional_witness:
  "findSimilar new_store None 4 = [] \<and>
   map chunk_of (findSimilar sample_store None (int 2)) = take 2 (chunks sample_store) \<and>
   length (findSimilar sample_store None (int 2)) = min 2 (length (chunks sample_store)) \<and>
   list_all (\<lambda>r. score r = None) (findSimilar sample_store None (int 2))"
  using findSimilar_positional [of new_store None 4 0] findSimilar_positional [of sample_store None 4 2]
  by (simp add: new_store_def)

subsection \<open>findSimilar: the ranked path\<close>








subsection \<open>The embedding client\<close>

declare embedding_loop.simps [simp del]

lemma embedding_loop_fulfils: "\<exists>v. fst (embedding_loop fetch t retries attempt w) = Inr v"
proof (induction fetch t retries attempt w rule: embedding_loop.induct)
  case (1 fetch t retries attempt w)
  show ?case
  proof (cases "attempt \<le> retries")
    case False
    then show ?thesis by (subst embedding_loop.simps) simp
  next
    case True
    obtain r w' where tb: "try_body fetch t retries attempt w = (r, w')"
      by (cases "try_body fetch t retries attempt w")
    show ?thesis
    proof (cases r)
      case (Inl e)
      with True tb show ?thesis by (subst embedding_loop.simps) simp
    next
      case (Inr a)
      show ?thesis
      proof (cases a)
        case Continue
        with True tb Inr "1.IH" show ?thesis
          by (subst embedding_loop.simps) auto
      next
        case (Return v)
        with True tb Inr show ?thesis by (subst embedding_loop.simps) simp
      qed
    qed
  qed
qed

lemma try_body_rate_limited:
  "rate_limited (fetch (fetches w) txt) \<Longrightarrow>
   try_body fetch txt retries attempt w =
     (if attempt < retries
      then (Inr Continue, set_timeout (2000 * (attempt + 1)) (w\<lparr>fetches := fetches w + 1\<rparr>))
      else (Inr (Return None), w\<lparr>fetches := fetches w + 1\<rparr>))"
  by (auto simp: try_body_def rate_limited_def Let_def split: sum.splits)

lemma try_body_failed:
  "failed_call (fetch (fetches w) txt) \<Longrightarrow>
   \<exists>r. try_body fetch txt retries attempt w = (r, w\<lparr>fetches := fetches w + 1\<rparr>) \<and>
       (r = Inr (Return None) \<or> (\<exists>e. r = Inl e))"
  by (auto simp: try_body_def failed_call_def Let_def embedding_values_def
      split: sum.splits json.splits)

lemma try_body_embedded:
  "fetch (fetches w) txt = embedded v \<Longrightarrow>
   try_body fetch txt retries attempt w = (Inr (Return (Some v)), w\<lparr>fetches := fetches w + 1\<rparr>)"
  by (simp add: try_body_def embedded_def Let_def ok_def embedding_values_def)

lemma embedding_loop_failed:
  assumes "failed_call (fetch (fetches w) txt)" and "attempt \<le> retries"
  shows "embedding_loop fetch txt retries attempt w = (Inr None, w\<lparr>fetches := fetches w + 1\<rparr>)"
  using try_body_failed [of fetch w "txt" retries attempt] assms
  by (subst embedding_loop.simps) auto

lemma embedding_loop_embedded:
  assumes "fetch (fetches w) txt = embedded v" and "attempt \<le> retries"
  shows "embedding_loop fetch txt retries attempt w = (Inr (Some v), w\<lparr>fetches := fetches w + 1\<rparr>)"
  using try_body_embedded [of fetch w "txt" v retries attempt] assms
  by (subst embedding_loop.simps) auto

lemma embedding_loop_retry:
  assumes "rate_limited (fetch (fetches w) txt)" and "attempt < retries"
  shows "embedding_loop fetch txt retries attempt w =
     embedding_loop fetch txt retries (attempt + 1)
       (set_timeout (2000 * (attempt + 1)) (w\<lparr>fetches := fetches w + 1\<rparr>))"
  using try_body_rate_limited [of fetch w "txt" retries attempt] assms
  by (subst embedding_loop.simps) auto

lemma embedding_loop_exhausted:
  assumes "rate_limited (fetch (fetches w) txt)"
  shows "embedding_loop fetch txt retries retries w = (Inr None, w\<lparr>fetches := fetches w + 1\<rparr>)"
  using try_body_rate_limited [of fetch w "txt" retries retries] assms
  by (subst embedding_loop.simps) auto

text \<open>
  C4. \<open>generateEmbeddingWithRetry\<close> never rejects: for every provider, text, retry
  budget and world its promise is fulfilled. With the budget of 2 retries, a provider
  that keeps signalling a rate limit is asked three times, after waits of 2000 and 4000
  ms (\<open>2000 * 2 ^ attempt\<close>), and the result is \<open>null\<close>; a rate limit followed by an
  embedding gives that embedding on the second call. A rejected \<open>fetch\<close>, a status
  that is not ok, a malformed body or a body without \<open>embedding.values\<close> gives \<open>null\<close>
  after that one call, with no wait.
\<close>

theorem generateEmbeddingWithRetry_never_rejects:
  "(\<exists>v. fst (generateEmbeddingWithRetry fetch txt retries w) = Inr v) \<and>
   (rate_limited (fetch (fetches w) txt) \<and> rate_limited (fetch (fetches w + 1) txt) \<and>
    rate_limited (fetch (fetches w + 2) txt) \<longrightarrow>
      generateEmbeddingWithRetry fetch txt 2 w =
        (Inr None, w\<lparr>fetches := fetches w + 3, timers := timers w @ [2000 * 2 ^ 0, 2000 * 2 ^ 1]\<rparr>)) \<and>
   (rate_limited (fetch (fetches w) txt) \<and> fetch (fetches w + 1) txt = embedded v \<longrightarrow>
      generateEmbeddingWithRetry fetch txt 2 w =
        (Inr (Some v), w\<lparr>fetches := fetches w + 2, timers := timers w @ [2000 * 2 ^ 0]\<rparr>)) \<and>
   (failed_call (fetch (fetches w) txt) \<longrightarrow>
      generateEmbeddingWithRetry fetch txt retries w = (Inr None, w\<lparr>fetches := fetches w + 1\<rparr>))"
proof (intro conjI impI)
  show "\<exists>v. fst (generateEmbeddingWithRetry fetch txt retries w) = Inr v"
    unfolding generateEmbeddingWithRetry_def by (rule embedding_loop_fulfils)
next
  assume a: "rate_limited (fetch (fetches w) txt) \<and> rate_limited (fetch (fetches w + 1) txt) \<and>
    rate_limited (fetch (fetches w + 2) txt)"
  define w1 where "w1 = set_timeout 2000 (w\<lparr>fetches := fetches w + 1\<rparr>)"
  define w2 where "w2 = set_timeout 4000 (w1\<lparr>fetches := fetches w1 + 1\<rparr>)"
  have f1: "fetches w1 = fetches w + 1" and f2: "fetches w2 = fetches w + 2"
    by (simp_all add: w1_def w2_def set_timeout_def)
  have "embedding_loop fetch txt 2 0 w = embedding_loop fetch txt 2 1 w1"
    using a embedding_loop_retry [of fetch w "txt" 0 2] by (simp add: w1_def)
  also have "\<dots> = embedding_loop fetch txt 2 (1 + 1) w2"
    using a f1 embedding_loop_retry [of fetch w1 "txt" 1 2] by (simp add: w2_def)
  also have "\<dots> = embedding_loop fetch txt 2 2 w2"
    by (simp only: one_add_one)
  also have "\<dots> = (Inr None, w2\<lparr>fetches := fetches w2 + 1\<rparr>)"
    using a f2 embedding_loop_exhausted [of fetch w2 "txt" 2] by simp
  finally show "generateEmbeddingWithRetry fetch txt 2 w =
        (Inr None, w\<lparr>fetches := fetches w + 3, timers := timers w @ [2000 * 2 ^ 0, 2000 * 2 ^ 1]\<rparr>)"
    by (simp add: generateEmbeddingWithRetry_def w1_def w2_def set_timeout_def)
next
  assume a: "rate_limited (fetch (fetches w) txt) \<and> fetch (fetches w + 1) txt = embedded v"
  define w1 where "w1 = set_timeout 2000 (w\<lparr>fetches := fetches w + 1\<rparr>)"
  have f1: "fetches w1 = fetches w + 1"
    by (simp add: w1_def set_timeout_def)
  have "embedding_loop fetch txt 2 0 w = embedding_loop fetch txt 2 1 w1"
    using a embedding_loop_retry [of fetch w "txt" 0 2] by (simp add: w1_def)
  also have "\<dots> = (Inr (Some v), w1\<lparr>fetches := fetches w1 + 1\<rparr>)"
    using a f1 embedding_loop_embedded [of fetch w1 "txt" v 1 2] by simp
  finally show "generateEmbeddingWithRetry fetch txt 2 w =
        (Inr (Some v), w\<lparr>fetches := fetches w + 2, timers := timers w @ [2000 * 2 ^ 0]\<rparr>)"
    by (simp add: generateEmbeddingWithRetry_def w1_def set_timeout_def)
next
  assume "failed_call (fetch (fetches w) txt)"
  then show "generateEmbeddingWithRetry fetch txt retries w = (Inr None, w\<lparr>fetches := fetches w + 1\<rparr>)"
    unfolding generateEmbeddingWithRetry_def
    using embedding_loop_failed [of fetch w "txt" 0 retries] by simp
qed

theorem generateEmbeddingWithRetry_never_rejects_witness:
  "(\<exists>v. fst (generateEmbeddingWithRetry always_429 ''x'' 2 world0) = Inr v) \<and>
   rate_limited (always_429 (fetches world0) ''x'') \<and>
   rate_limited (always_429 (fetches world0 + 1) ''x'') \<and>
   rate_limited (always_429 (fetches world0 + 2) ''x'') \<and>
   generateEmbeddingWithRetry always_429 ''x'' 2 world0 =
     (Inr None, \<lparr>fetches = 3, timers = [2000, 4000]\<rparr>) \<and>
   rate_limited (flaky (fetches world0) ''x'') \<and>
   flaky (fetches world0 + 1) ''x'' = embedded [3, 4] \<and>
   generateEmbeddingWithRetry flaky ''x'' 2 world0 =
     (Inr (Some [3, 4]), \<lparr>fetches = 2, timers = [2000]\<rparr>) \<and>
   failed_call (offline (fetches world0) ''x'') \<and>
   generateEmbeddingWithRetry offline ''x'' 2 world0 = (Inr None, \<lparr>fetches = 1, timers = []\<rparr>)"
  using generateEmbeddingWithRetry_never_rejects [of always_429 "''x''" 2 world0 "[]"]
    generateEmbeddingWithRetry_never_rejects [of flaky "''x''" 2 world0 "[3, 4]"]
    generateEmbeddingWithRetry_never_rejects [of offline "''x''" 2 world0 "[]"]
  by (simp add: always_429_def flaky_def offline_def world0_def rate_limited_def failed_call_def
      embedded_def)

subsection \<open>retrieveContext\<close>






subsection \<open>processDocument\<close>















subsection \<open>The chunker\<close>

lemma strip_ws_append [simp]: "strip_ws (a @ b) = strip_ws a @ strip_ws b"
  by (simp add: strip_ws_def)

lemma strip_ws_Nil [simp]: "strip_ws [] = []"
  by (simp add: strip_ws_def)

lemma strip_ws_dropWhile:
  "(\<And>x. P x \<Longrightarrow> is_space x) \<Longrightarrow> strip_ws (dropWhile P xs) = strip_ws xs"
  by (induction xs) (auto simp: strip_ws_def)

lemma strip_ws_rev: "strip_ws (rev xs) = rev (strip_ws xs)"
  by (simp add: strip_ws_def rev_filter)

lemma strip_ws_trim: "strip_ws (trim s) = strip_ws s"
proof -
  have "strip_ws (trim s) = rev (strip_ws (dropWhile is_space (rev (dropWhile is_space s))))"
    by (simp add: trim_def strip_ws_rev)
  also have "\<dots> = rev (strip_ws (rev (dropWhile is_space s)))"
    by (simp add: strip_ws_dropWhile)
  also have "\<dots> = strip_ws (dropWhile is_space s)"
    by (simp add: strip_ws_rev)
  also have "\<dots> = strip_ws s"
    by (simp add: strip_ws_dropWhile)
  finally show ?thesis .
qed

lemma trim_empty_strip: "trim s = [] \<Longrightarrow> strip_ws s = []"
  using strip_ws_trim [of s] by simp

lemma strip_nonempty_trim: "strip_ws s \<noteq> [] \<Longrightarrow> trim s \<noteq> []"
  using trim_empty_strip by blast

lemma is_space_newline: "is_space newline"
  by (simp add: is_space_def newline_def)

lemma is_space_blank: "is_space CHR '' ''"
  by (simp add: is_space_def)

lemma strip_ws_space [simp]: "is_space c \<Longrightarrow> strip_ws (c # cs) = strip_ws cs"
  by (simp add: strip_ws_def)

lemma strip_push_front:
  "concat (map strip_ws (push_front c ws)) = strip_ws [c] @ concat (map strip_ws ws)"
  by (cases ws) (simp_all add: strip_ws_def)

lemma strip_split_paragraphs: "concat (map strip_ws (split_paragraphs s)) = strip_ws s"
proof (induction s rule: split_paragraphs.induct)
  case 1
  show ?case by simp
next
  case (2 c cs)
  show ?case
  proof (cases "c = newline \<and> take 1 cs = [newline]")
    case True
    have "strip_ws (dropWhile (\<lambda>x. x = newline) cs) = strip_ws cs"
      by (rule strip_ws_dropWhile) (simp add: is_space_newline)
    with True 2 show ?thesis
      by (simp add: is_space_newline)
  next
    case False
    then have eq: "split_paragraphs (c # cs) = push_front c (split_paragraphs cs)"
      by auto
    have ih: "concat (map strip_ws (split_paragraphs cs)) = strip_ws cs"
      using False 2 by auto
    have "strip_ws (c # cs) = strip_ws [c] @ strip_ws cs"
      by (simp add: strip_ws_def)
    then show ?thesis
      by (simp only: eq strip_push_front ih)
  qed
qed

lemma strip_split_after: "concat (map strip_ws (split_after p s)) = strip_ws s"
proof (induction p s rule: split_after.induct)
  case (1 prev)
  show ?case by simp
next
  case (2 prev c cs)
  show ?case
  proof (cases "is_space c \<and> is_sentence_end prev")
    case True
    have "strip_ws (dropWhile is_space cs) = strip_ws cs"
      by (rule strip_ws_dropWhile)
    with True 2 show ?thesis
      by simp
  next
    case False
    then have eq: "split_after prev (c # cs) = push_front c (split_after (Some c) cs)"
      by auto
    have ih: "concat (map strip_ws (split_after (Some c) cs)) = strip_ws cs"
      using False 2 by auto
    have "strip_ws (c # cs) = strip_ws [c] @ strip_ws cs"
      by (simp add: strip_ws_def)
    then show ?thesis
      by (simp only: eq strip_push_front ih)
  qed
qed

lemma join_push_front: "ws \<noteq> [] \<Longrightarrow> join sep (push_front c ws) = c # join sep ws"
proof (cases ws)
  case Nil
  then show ?thesis by simp
next
  case (Cons w ws')
  then show ?thesis by (cases ws') simp_all
qed

lemma split_char_nonempty: "split_char d s \<noteq> []"
  by (induction s) (auto, metis push_front.elims list.distinct(1))

lemma join_Cons: "ws \<noteq> [] \<Longrightarrow> join sep (w # ws) = w @ sep @ join sep ws"
  by (cases ws) simp_all

lemma join_split_char: "join [d] (split_char d s) = s"
  by (induction s) (simp_all add: join_push_front split_char_nonempty join_Cons)

lemma suffix_join_drop: "suffix (join sep (drop k ws)) (join sep ws)"
proof (induction ws arbitrary: k)
  case Nil
  show ?case by simp
next
  case (Cons w ws)
  show ?case
  proof (cases k)
    case 0
    then show ?thesis by simp
  next
    case (Suc j)
    have "suffix (join sep ws) (join sep (w # ws))"
      by (cases ws) (simp_all add: suffix_def)
    with Cons [of j] Suc show ?thesis
      by (auto intro: suffix_order.trans)
  qed
qed

lemma overlap_seed_suffix:
  "suffix (join '' '' (slice_last n (split_char CHR '' '' s))) s"
  using suffix_join_drop [of "'' ''" "length (split_char CHR '' '' s) - n" "split_char CHR '' '' s"]
  by (simp add: slice_last_def join_split_char)

lemma suffix_strip_ws: "suffix a b \<Longrightarrow> suffix (strip_ws a) (strip_ws b)"
  by (auto simp: suffix_def)

lemma covers_snoc:
  "covers p d ts \<Longrightarrow> strip_ws t = seed @ fresh \<Longrightarrow>
   suffix seed (if ts = [] then p else strip_ws (last ts)) \<Longrightarrow>
   covers p (d @ fresh) (ts @ [t])"
proof (induction arbitrary: t seed fresh rule: covers.induct)
  case (covers_Nil prev)
  then have "covers prev (fresh @ []) [t]"
    by (intro covers_Cons [of t seed fresh]) (simp_all add: covers.covers_Nil)
  then show ?case by simp
next
  case (covers_Cons t0 seed0 fresh0 prev rest ts)
  have "suffix seed (if ts = [] then strip_ws t0 else strip_ws (last ts))"
    using covers_Cons.prems(2) by (simp split: if_splits)
  with covers_Cons.IH [OF covers_Cons.prems(1)]
  have "covers (strip_ws t0) (rest @ fresh) (ts @ [t])" .
  with covers_Cons.hyps(1,2) have "covers prev (fresh0 @ rest @ fresh) (t0 # ts @ [t])"
    by (rule covers.covers_Cons)
  then show ?case by simp
qed

lemma covers_nonempty: "covers p d ts \<Longrightarrow> d \<noteq> [] \<Longrightarrow> ts \<noteq> []"
  by (induction rule: covers.induct) simp_all

lemma chunker_inv_init: "chunker_inv [] ([], [], 0)"
  by (simp add: chunker_inv_def last_stripped_def covers_Nil)

lemma chunker_invI:
  "strip_ws cur = seed @ fresh \<Longrightarrow> suffix seed (last_stripped (map tc_text out)) \<Longrightarrow>
   covers [] before (map tc_text out) \<Longrightarrow> d = before @ fresh \<Longrightarrow>
   chunker_inv d (out, cur, idx)"
  by (auto simp: chunker_inv_def)

lemma chunker_inv_flush:
  assumes "chunker_inv d (out, cur, idx)" and "strip_ws cur' = seed' @ fresh'"
    and "suffix seed' (strip_ws cur)"
  shows "chunker_inv (d @ fresh')
     (out @ [\<lparr>tc_text = trim cur, tc_index = idx\<rparr>], cur', idx + 1)"
proof -
  from assms(1) obtain seed fresh before where
    cur: "strip_ws cur = seed @ fresh" and
    seed: "suffix seed (last_stripped (map tc_text out))" and
    cov: "covers [] before (map tc_text out)" and
    d: "d = before @ fresh"
    by (auto simp: chunker_inv_def)
  have "covers [] (before @ fresh) (map tc_text out @ [trim cur])"
    using cov _ seed [unfolded last_stripped_def]
    by (rule covers_snoc) (simp add: strip_ws_trim cur)
  moreover have "suffix seed' (last_stripped (map tc_text out @ [trim cur]))"
    using assms(3) by (simp add: last_stripped_def strip_ws_trim)
  ultimately show ?thesis
    using assms(2) d
    by (intro chunker_invI [of cur' seed' fresh' _ "before @ fresh"]) simp_all
qed

lemma chunker_inv_extend:
  assumes "chunker_inv d (out, cur, idx)" and "strip_ws cur' = strip_ws cur @ fresh'"
  shows "chunker_inv (d @ fresh') (out, cur', idx)"
proof -
  from assms(1) obtain seed fresh before where
    cur: "strip_ws cur = seed @ fresh" and
    seed: "suffix seed (last_stripped (map tc_text out))" and
    cov: "covers [] before (map tc_text out)" and
    d: "d = before @ fresh"
    by (auto simp: chunker_inv_def)
  have "strip_ws cur' = seed @ (fresh @ fresh')"
    using assms(2) cur by simp
  with seed cov d show ?thesis
    by (intro chunker_invI [of cur' seed "fresh @ fresh'" _ before]) simp_all
qed

lemma paragraph_step_inv:
  assumes "chunker_inv d st"
  shows "chunker_inv (d @ strip_ws para) (paragraph_step n st para)"
proof -
  obtain out cur idx where st: "st = (out, cur, idx)"
    by (cases st)
  show ?thesis
  proof (cases "length cur + length para > n \<and> length cur > 0")
    case True
    define cur' where
      "cur' = join '' '' (slice_last 20 (split_char CHR '' '' cur)) @ '' '' @ para"
    have "strip_ws cur' =
        strip_ws (join '' '' (slice_last 20 (split_char CHR '' '' cur))) @ strip_ws para"
      by (simp add: cur'_def is_space_blank)
    moreover have "suffix (strip_ws (join '' '' (slice_last 20 (split_char CHR '' '' cur))))
        (strip_ws cur)"
      by (intro suffix_strip_ws overlap_seed_suffix)
    ultimately have "chunker_inv (d @ strip_ws para)
        (out @ [\<lparr>tc_text = trim cur, tc_index = idx\<rparr>], cur', idx + 1)"
      using assms [unfolded st] by (intro chunker_inv_flush)
    with True show ?thesis
      by (simp add: st paragraph_step_def cur'_def)
  next
    case False
    have "strip_ws (cur @ (if cur \<noteq> [] then [newline, newline] else []) @ para) =
        strip_ws cur @ strip_ws para"
      by (simp add: is_space_newline)
    with assms [unfolded st]
    have "chunker_inv (d @ strip_ws para)
        (out, cur @ (if cur \<noteq> [] then [newline, newline] else []) @ para, idx)"
      by (rule chunker_inv_extend)
    with False show ?thesis
      by (auto simp: st paragraph_step_def)
  qed
qed

lemma sentence_step_inv:
  assumes "chunker_inv d st"
  shows "chunker_inv (d @ strip_ws sentence) (sentence_step n st sentence)"
proof -
  obtain out cur idx where st: "st = (out, cur, idx)"
    by (cases st)
  show ?thesis
  proof (cases "length cur + length sentence > n \<and> length cur > 0")
    case True
    have "strip_ws sentence = [] @ strip_ws sentence" by simp
    moreover have "suffix [] (strip_ws cur)" by simp
    ultimately have "chunker_inv (d @ strip_ws sentence)
        (out @ [\<lparr>tc_text = trim cur, tc_index = idx\<rparr>], sentence, idx + 1)"
      using assms [unfolded st] by (intro chunker_inv_flush)
    with True show ?thesis
      by (simp add: st sentence_step_def)
  next
    case False
    have "strip_ws (cur @ (if cur \<noteq> [] then '' '' else []) @ sentence) =
        strip_ws cur @ strip_ws sentence"
      by (simp add: is_space_blank)
    with assms [unfolded st]
    have "chunker_inv (d @ strip_ws sentence)
        (out, cur @ (if cur \<noteq> [] then '' '' else []) @ sentence, idx)"
      by (rule chunker_inv_extend)
    with False show ?thesis
      by (auto simp: st sentence_step_def)
  qed
qed

lemma foldl_chunker_inv:
  assumes step: "\<And>d st x. chunker_inv d st \<Longrightarrow> chunker_inv (d @ strip_ws x) (f st x)"
  shows "chunker_inv d st \<Longrightarrow> chunker_inv (d @ concat (map strip_ws xs)) (foldl f st xs)"
proof (induction xs arbitrary: d st)
  case Nil
  then show ?case by simp
next
  case (Cons x xs)
  from Cons.IH [OF step [OF Cons.prems], of x] show ?case
    by simp
qed

lemma final_flush_covers:
  assumes "chunker_inv d st"
  shows "covers [] d (map tc_text (final_flush st))"
proof -
  obtain out cur idx where st: "st = (out, cur, idx)"
    by (cases st)
  from assms [unfolded st] obtain seed fresh before where
    cur: "strip_ws cur = seed @ fresh" and
    seed: "suffix seed (last_stripped (map tc_text out))" and
    cov: "covers [] before (map tc_text out)" and
    d: "d = before @ fresh"
    by (auto simp: chunker_inv_def)
  show ?thesis
  proof (cases "trim cur = []")
    case True
    then have "fresh = []"
      using trim_empty_strip [of cur] cur by simp
    with True cov d show ?thesis
      by (simp add: st final_flush_def)
  next
    case False
    have "covers [] (before @ fresh) (map tc_text out @ [trim cur])"
      using cov _ seed [unfolded last_stripped_def]
      by (rule covers_snoc) (simp add: strip_ws_trim cur)
    with False d show ?thesis
      by (simp add: st final_flush_def)
  qed
qed

lemma paragraph_chunks_covers: "covers [] (strip_ws t) (map tc_text (paragraph_chunks t n))"
proof -
  have "chunker_inv ([] @ concat (map strip_ws (split_paragraphs t)))
      (foldl (paragraph_step n) ([], [], 0) (split_paragraphs t))"
    by (rule foldl_chunker_inv [where f = "paragraph_step n", OF paragraph_step_inv chunker_inv_init])
  then show ?thesis
    unfolding paragraph_chunks_def by (intro final_flush_covers) (simp add: strip_split_paragraphs)
qed

lemma splitBySentences_covers: "covers [] (strip_ws t) (map tc_text (splitBySentences t n))"
proof -
  have "chunker_inv ([] @ concat (map strip_ws (split_sentences t)))
      (foldl (sentence_step n) ([], [], 0) (split_sentences t))"
    by (rule foldl_chunker_inv [where f = "sentence_step n", OF sentence_step_inv chunker_inv_init])
  then show ?thesis
    unfolding splitBySentences_def
    by (intro final_flush_covers) (simp add: strip_split_after split_sentences_def)
qed

lemma chunkText_covers: "covers [] (strip_ws t) (map tc_text (chunkText t n ov))"
  by (simp add: chunkText_def Let_def paragraph_chunks_covers splitBySentences_covers)

lemma push_front_single: "push_front c [w] = [c # w]"
  by simp

lemma split_paragraphs_no_blank: "no_blank_line s \<Longrightarrow> split_paragraphs s = [s]"
  by (induction s rule: no_blank_line.induct) auto

lemma no_newline_no_blank: "newline \<notin> set s \<Longrightarrow> no_blank_line s"
  by (induction s rule: no_blank_line.induct) auto

lemma split_paragraphs_break:
  "newline \<notin> set a \<Longrightarrow>
   split_paragraphs (a @ newline # newline # b) =
     a # split_paragraphs (dropWhile (\<lambda>x. x = newline) b)"
  by (induction a) auto

lemma dropWhile_keep: "xs \<noteq> [] \<Longrightarrow> \<not> P (hd xs) \<Longrightarrow> dropWhile P (xs @ ys) = xs @ ys"
  by (cases xs) simp_all

lemma split_char_absent: "d \<notin> set s \<Longrightarrow> split_char d s = [s]"
  by (induction s) auto

lemma trim_clean:
  assumes "list_all is_space sp" and "x \<noteq> []" and "\<not> is_space (hd x)" and "\<not> is_space (last x)"
  shows "trim (sp @ x) = x"
proof -
  have "dropWhile is_space (sp @ x) = x"
    using assms(1-3) by (cases x) (simp_all add: dropWhile_append3 list_all_iff dropWhile_append)
  moreover have "dropWhile is_space (rev x) = rev x"
    using assms(2,4) by (cases "rev x") (simp_all add: last_rev [symmetric] hd_rev)
  ultimately show ?thesis
    by (simp add: trim_def)
qed

lemma trim_blank:
  assumes "list_all is_space sp"
  shows "trim sp = []"
proof -
  have blank: "dropWhile is_space sp = []"
    using assms by (induction sp) simp_all
  show ?thesis
    unfolding trim_def blank by simp
qed





lemma chunkText_blank_lead:
  assumes x: "list_all (\<lambda>c. \<not> is_space c) x" "x \<noteq> []"
    and y: "list_all (\<lambda>c. \<not> is_space c) y" "y \<noteq> []"
    and n: "n \<le> length x"
  shows "map tc_text (chunkText ('' '' @ [newline, newline] @ x @ [newline, newline] @ y) n ov) =
     [[], x, x @ '' '' @ y]"
proof -
  have nl: "newline \<notin> set x" "newline \<notin> set y" and sp: "CHR '' '' \<notin> set x"
    using x(1) y(1) is_space_newline is_space_blank by (auto simp: list_all_iff)
  have hx: "\<not> is_space (hd x)" "\<not> is_space (last x)" and hy: "\<not> is_space (last y)"
    using x y by (auto simp: list_all_iff)
  have "split_paragraphs ('' '' @ newline # newline # x @ newline # newline # y) =
      '' '' # split_paragraphs (dropWhile (\<lambda>c. c = newline) (x @ newline # newline # y))"
    by (rule split_paragraphs_break) (simp add: newline_def)
  also have "dropWhile (\<lambda>c. c = newline) (x @ newline # newline # y) = x @ newline # newline # y"
    using x(2) nl(1) by (cases x) auto
  also have "split_paragraphs (x @ newline # newline # y) =
      x # split_paragraphs (dropWhile (\<lambda>c. c = newline) y)"
    using nl(1) by (rule split_paragraphs_break)
  also have "dropWhile (\<lambda>c. c = newline) y = y"
    using y(2) nl(2) by (cases y) auto
  also have "split_paragraphs y = [y]"
    using nl(2) by (intro split_paragraphs_no_blank no_newline_no_blank)
  finally have paras:
    "split_paragraphs ('' '' @ [newline, newline] @ x @ [newline, newline] @ y) = ['' '', x, y]"
    by simp
  have s1: "paragraph_step n ([], [], 0) '' '' = ([], '' '', 0)"
    by (simp add: paragraph_step_def)
  have s2: "paragraph_step n ([], '' '', 0) x =
      ([\<lparr>tc_text = [], tc_index = 0\<rparr>], ''  '' @ x, 1)"
    using n by (simp add: paragraph_step_def trim_blank is_space_blank slice_last_def)
  have words: "split_char CHR '' '' (CHR '' '' # CHR '' '' # x) = [[], [], x]"
    using sp by (simp add: split_char_absent)
  have seed: "join '' '' (slice_last 20 (split_char CHR '' '' (CHR '' '' # CHR '' '' # x))) =
      CHR '' '' # CHR '' '' # x"
    unfolding words by (simp add: slice_last_def)
  have t2: "trim (CHR '' '' # CHR '' '' # x) = x"
    using x(2) hx trim_clean [of "''  ''" x] by (simp add: is_space_blank)
  have s3: "paragraph_step n ([\<lparr>tc_text = [], tc_index = 0\<rparr>], ''  '' @ x, 1) y =
      ([\<lparr>tc_text = [], tc_index = 0\<rparr>, \<lparr>tc_text = x, tc_index = 1\<rparr>],
       ''  '' @ x @ '' '' @ y, 2)"
    using n y(2) by (simp add: paragraph_step_def seed t2 del: split_char.simps)
  have t3: "trim (CHR '' '' # CHR '' '' # x @ CHR '' '' # y) = x @ '' '' @ y"
    using x(2) y(2) hx hy trim_clean [of "''  ''" "x @ '' '' @ y"]
    by (simp add: is_space_blank)
  have fold: "foldl (paragraph_step n) ([], [], 0) ['' '', x, y] =
      ([\<lparr>tc_text = [], tc_index = 0\<rparr>, \<lparr>tc_text = x, tc_index = 1\<rparr>],
       ''  '' @ x @ '' '' @ y, 2)"
    by (simp only: foldl_Cons foldl_Nil s1 s2 s3)
  have "map tc_text (paragraph_chunks ('' '' @ [newline, newline] @ x @ [newline, newline] @ y) n) =
      [[], x, x @ '' '' @ y]"
    unfolding paragraph_chunks_def paras fold using x(2)
    by (simp add: final_flush_def t3)
  moreover from this
  have "length (paragraph_chunks ('' '' @ [newline, newline] @ x @ [newline, newline] @ y) n) = 3"
    using arg_cong [of _ _ length] by fastforce
  ultimately show ?thesis
    by (simp add: chunkText_def)
qed

text \<open>
  C7. The text of a chunk is meant to be non-empty and trimmed. The flush inside the
  paragraph loop pushes \<open>currentChunk.trim()\<close> whenever \<open>currentChunk\<close> has a length,
  also when it holds white space only; the flush after the loop tests the trimmed
  text first. For a document of a blank first paragraph and two paragraphs of 1500
  code units, with the default sizes, the first of the three chunks has the empty
  text.
\<close>

theorem chunkText_pushes_empty_chunk:
  "map tc_text (chunkText blank_lead_doc 1500 200) =
     [[], replicate 1500 CHR ''X'', replicate 1500 CHR ''X'' @ '' '' @ replicate 1500 CHR ''Y'']"
proof -
  have x: "list_all (\<lambda>c. \<not> is_space c) (replicate 1500 CHR ''X'')"
    and y: "list_all (\<lambda>c. \<not> is_space c) (replicate 1500 CHR ''Y'')"
    by (simp_all add: list_all_iff is_space_def)
  have ne: "replicate 1500 CHR ''X'' \<noteq> []" "replicate 1500 CHR ''Y'' \<noteq> []"
    by simp_all
  have n: "(1500 :: nat) \<le> length (replicate 1500 CHR ''X'')"
    by simp
  show ?thesis
    unfolding blank_lead_doc_def by (rule chunkText_blank_lead [OF x ne(1) y ne(2) n])
qed

text \<open>
  A document of one space is not empty, and \<open>chunkText\<close> returns no chunk for it: the
  flush after the loop skips a buffer whose trimmed text is empty.
\<close>

theorem chunkText_blank_document:
  "'' '' \<noteq> [] \<and> chunkText '' '' 1500 200 = []"
  by (simp add: chunkText_def paragraph_chunks_def paragraph_step_def final_flush_def
      trim_def is_space_def newline_def)

text \<open>
  C5 (amended). For every document, the chunk texts of \<open>chunkText\<close>, in output order,
  reproduce the content of the document up to white space and the overlap that seeds a
  chunk with an end piece of the chunk before it; and for every document with at least
  one code unit that is not white space, \<open>chunkText\<close> returns at least one chunk.
\<close>

theorem chunkText_reproduces:
  "covers [] (strip_ws doc) (map tc_text (chunkText doc chunkSize overlap)) \<and>
   (list_ex (\<lambda>c. \<not> is_space c) doc \<longrightarrow> chunkText doc chunkSize overlap \<noteq> [])"
proof (intro conjI impI)
  show cov: "covers [] (strip_ws doc) (map tc_text (chunkText doc chunkSize overlap))"
    by (rule chunkText_covers)
  assume "list_ex (\<lambda>c. \<not> is_space c) doc"
  then have "strip_ws doc \<noteq> []"
    by (auto simp: strip_ws_def list_ex_iff filter_empty_conv)
  with cov have "map tc_text (chunkText doc chunkSize overlap) \<noteq> []"
    by (rule covers_nonempty)
  then show "chunkText doc chunkSize overlap \<noteq> []"
    by simp
qed

lemma chunkText_overlap_doc:
  "map tc_text (chunkText overlap_doc 4 200) = [''a b'', ''a b cd'', ''a b cd ef'']"
  by (simp add: overlap_doc_def chunkText_def paragraph_chunks_def paragraph_step_def
      final_flush_def trim_def is_space_def newline_def slice_last_def)

theorem chunkText_reproduces_witness:
  "list_ex (\<lambda>c. \<not> is_space c) overlap_doc \<and>
   covers [] (strip_ws overlap_doc) [''a b'', ''a b cd'', ''a b cd ef''] \<and>
   strip_ws overlap_doc = ''abcdef'' \<and>
   chunkText overlap_doc 4 200 \<noteq> []"
proof -
  have ex: "list_ex (\<lambda>c. \<not> is_space c) overlap_doc"
    by (simp add: overlap_doc_def is_space_def)
  have s: "strip_ws overlap_doc = ''abcdef''"
    by (simp add: overlap_doc_def strip_ws_def is_space_def newline_def)
  from chunkText_reproduces [of overlap_doc 4 200] ex
  have "covers [] (strip_ws overlap_doc) (map tc_text (chunkText overlap_doc 4 200))"
    and "chunkText overlap_doc 4 200 \<noteq> []"
    by blast+
  with ex s show ?thesis
    by (simp add: chunkText_overlap_doc)
qed



subsection \<open>Cosine similarity over the reals\<close>

text \<open>With exact arithmetic the similarity of a vector that is not zero to itself is
  1, that of two vectors of equal length whose dot product is 0 is 0, and that of a
  zero vector to anything is 0: \<open>normA === 0 || normB === 0\<close> answers before the
  division. Rounding, underflow and overflow of doubles are outside this model.\<close>

lemma cosine_fold:
  "foldl cosine_step (d, p, q) ps =
     (d + (\<Sum>x\<leftarrow>ps. fst x * snd x), p + (\<Sum>x\<leftarrow>ps. fst x * fst x), q + (\<Sum>x\<leftarrow>ps. snd x * snd x))"
  by (induction ps arbitrary: d p q) (simp_all add: cosine_step_def algebra_simps)

lemma sum_squares_zero:
  "(\<Sum>x\<leftarrow>xs. (f x :: real) * f x) = 0 \<longleftrightarrow> (\<forall>x\<in>set xs. f x = 0)"
proof (induction xs)
  case Nil
  show ?case by simp
next
  case (Cons x xs)
  have "0 \<le> (\<Sum>x\<leftarrow>xs. f x * f x)"
    by (rule sum_list_nonneg) auto
  then have "f x * f x + (\<Sum>x\<leftarrow>xs. f x * f x) = 0 \<longleftrightarrow>
      f x * f x = 0 \<and> (\<Sum>x\<leftarrow>xs. f x * f x) = 0"
    by (simp add: add_nonneg_eq_0_iff)
  with Cons show ?case by simp
qed

lemma cosineSimilarity_zero_vector:
  assumes "\<forall>x\<in>set a. x = 0"
  shows "cosineSimilarity (Some a) b = 0" and "cosineSimilarity b (Some a) = 0"
proof -
  have za: "(\<Sum>x\<leftarrow>zip a v. fst x * fst x) = 0" and zb: "(\<Sum>x\<leftarrow>zip v a. snd x * snd x) = 0" for v
    using assms by (auto simp: sum_squares_zero dest: set_zip_leftD set_zip_rightD)
  show "cosineSimilarity (Some a) b = 0"
    by (simp add: cosineSimilarity_def cosine_fold za split: option.splits)
  show "cosineSimilarity b (Some a) = 0"
    by (simp add: cosineSimilarity_def cosine_fold zb split: option.splits)
qed

lemma cosineSimilarity_self:
  assumes "\<exists>x\<in>set a. x \<noteq> 0"
  shows "cosineSimilarity (Some a) (Some a) = 1"
proof -
  define s where "s = (\<Sum>x\<leftarrow>a. x * x)"
  have sums: "(\<Sum>x\<leftarrow>zip a a. fst x * snd x) = s" "(\<Sum>x\<leftarrow>zip a a. fst x * fst x) = s"
    "(\<Sum>x\<leftarrow>zip a a. snd x * snd x) = s"
    by (simp_all add: s_def zip_same_conv_map comp_def)
  have "s \<noteq> 0"
    using assms sum_squares_zero [of "\<lambda>x. x" a] by (auto simp: s_def)
  moreover have "0 \<le> s"
    unfolding s_def by (rule sum_list_nonneg) auto
  ultimately show ?thesis
    by (simp add: cosineSimilarity_def cosine_fold sums)
qed

lemma cosineSimilarity_orthogonal:
  assumes "length a = length b" and "(\<Sum>x\<leftarrow>zip a b. fst x * snd x) = 0"
  shows "cosineSimilarity (Some a) (Some b) = 0"
  using assms by (simp add: cosineSimilarity_def cosine_fold)

subsection \<open>Chunk texts are trimmed\<close>

text \<open>Every chunk text is the result of \<open>trim\<close>, on both paths.\<close>

lemma trim_ends:
  assumes "trim s \<noteq> []"
  shows "\<not> is_space (hd (trim s))" and "\<not> is_space (last (trim s))"
proof -
  define zs where "zs = dropWhile is_space s"
  define ys where "ys = dropWhile is_space (rev zs)"
  have t: "trim s = rev ys"
    by (simp add: trim_def ys_def zs_def)
  with assms have ys: "ys \<noteq> []" by simp
  then have zs: "zs \<noteq> []"
    by (auto simp: ys_def)
  have "\<not> is_space (hd ys)"
    using ys unfolding ys_def by (rule hd_dropWhile)
  then show "\<not> is_space (last (trim s))"
    using ys by (simp add: t last_rev)
  have "suffix ys (rev zs)"
    unfolding ys_def by (rule suffix_dropWhile)
  then have "last ys = last (rev zs)"
    using ys by (auto simp: suffix_def)
  moreover have "\<not> is_space (hd zs)"
    using zs unfolding zs_def by (rule hd_dropWhile)
  ultimately show "\<not> is_space (hd (trim s))"
    using ys zs by (simp add: t hd_rev last_rev)
qed

lemma trimmed_trim: "trimmed (trim s)"
  using trim_ends [of s] by (auto simp: trimmed_def)

lemma paragraph_step_trimmed:
  "list_all (\<lambda>c. trimmed (tc_text c)) (fst st) \<Longrightarrow>
   list_all (\<lambda>c. trimmed (tc_text c)) (fst (paragraph_step n st p))"
  by (cases st) (simp add: paragraph_step_def trimmed_trim)

lemma sentence_step_trimmed:
  "list_all (\<lambda>c. trimmed (tc_text c)) (fst st) \<Longrightarrow>
   list_all (\<lambda>c. trimmed (tc_text c)) (fst (sentence_step n st p))"
  by (cases st) (simp add: sentence_step_def trimmed_trim)

lemma foldl_trimmed:
  assumes "\<And>st x. list_all (\<lambda>c. trimmed (tc_text c)) (fst st) \<Longrightarrow>
      list_all (\<lambda>c. trimmed (tc_text c)) (fst (f st x))"
  shows "list_all (\<lambda>c. trimmed (tc_text c)) (fst st) \<Longrightarrow>
      list_all (\<lambda>c. trimmed (tc_text c)) (fst (foldl f st xs))"
  by (induction xs arbitrary: st) (simp_all add: assms)

lemma final_flush_trimmed:
  "list_all (\<lambda>c. trimmed (tc_text c)) (fst st) \<Longrightarrow>
   list_all (\<lambda>c. trimmed (tc_text c)) (final_flush st)"
  by (cases st) (simp add: final_flush_def trimmed_trim)

lemma chunkText_trimmed: "list_all (\<lambda>c. trimmed (tc_text c)) (chunkText t n ov)"
proof -
  have "list_all (\<lambda>c. trimmed (tc_text c)) (paragraph_chunks t n)"
    unfolding paragraph_chunks_def
    by (intro final_flush_trimmed foldl_trimmed [where f = "paragraph_step n"]
        paragraph_step_trimmed) simp_all
  moreover have "list_all (\<lambda>c. trimmed (tc_text c)) (splitBySentences t n)"
    unfolding splitBySentences_def
    by (intro final_flush_trimmed foldl_trimmed [where f = "sentence_step n"]
        sentence_step_trimmed) simp_all
  ultimately show ?thesis
    by (simp add: chunkText_def Let_def)
qed

end
